theory Spec2Isabelle
  imports Main
begin

section \<open>Strings of the source language\<close>

text \<open>
  A Python \<open>str\<close> is a sequence of Unicode code points, so a character is modelled
  by its code point (a natural number) and a string by a list of code points. A document
  is the list of its lines, as \<open>read_lines\<close> returns it.
\<close>

type_synonym uchar = nat
type_synonym ustring = "uchar list"

text \<open>An ASCII literal, written as an Isabelle string, as a list of code points.\<close>

definition ustr :: "string \<Rightarrow> ustring" where
  "ustr s = map of_char s"

text \<open>
  The white space of \<open>str.strip()\<close>, \<open>str.isspace()\<close> and of \<open>\s\<close> in a
  \<open>str\<close> pattern of \<open>re\<close>: all three test the same set of code points (tab to
  carriage return, the four information separators, space, NEL, no-break space and the
  Unicode space separators).
\<close>

definition is_space :: "uchar \<Rightarrow> bool" where
  "is_space c \<longleftrightarrow>
     (9 \<le> c \<and> c \<le> 13) \<or> (28 \<le> c \<and> c \<le> 32) \<or> c = 133 \<or> c = 160 \<or> c = 5760 \<or>
     (8192 \<le> c \<and> c \<le> 8202) \<or> c = 8232 \<or> c = 8233 \<or> c = 8239 \<or> c = 8287 \<or> c = 12288"

text \<open>\<open>s.strip()\<close>: white space removed at both ends.\<close>

definition strip :: "ustring \<Rightarrow> ustring" where
  "strip s = rev (dropWhile is_space (rev (dropWhile is_space s)))"

text \<open>\<open>sep.join(xs)\<close>.\<close>

fun join :: "ustring \<Rightarrow> ustring list \<Rightarrow> ustring" where
  "join sep [] = []"
| "join sep [x] = x"
| "join sep (x # y # ys) = x @ sep @ join sep (y # ys)"

text \<open>\<open>xs[i:j]\<close> for indices that are not negative.\<close>

definition slice :: "'a list \<Rightarrow> nat \<Rightarrow> nat \<Rightarrow> 'a list" where
  "slice xs i j = drop i (take j xs)"

text \<open>\<open>s.startswith(p)\<close>, with the prefix as the first argument.\<close>

fun starts_with :: "ustring \<Rightarrow> ustring \<Rightarrow> bool" where
  "starts_with [] s = True"
| "starts_with (p # ps) [] = False"
| "starts_with (p # ps) (c # cs) = (p = c \<and> starts_with ps cs)"

text \<open>\<open>needle in hay\<close> on strings: \<open>needle\<close> occurs as a contiguous substring.\<close>

fun contains :: "ustring \<Rightarrow> ustring \<Rightarrow> bool" where
  "contains needle [] = (needle = [])"
| "contains needle (c # cs) = (starts_with needle (c # cs) \<or> contains needle cs)"

section \<open>The heading pattern\<close>

text \<open>
  \<open>re.match(r'^(#{1,6})\s*(.+)$', ln)\<close>, by the backtracking the engine does: the
  longest run of one to six \<open>#\<close> first, then the longest run of white space, then
  \<open>.+\<close>, which takes every character up to the first line feed (the dot matches no
  line feed) and must take one at least; \<open>$\<close> holds at the end of the string and
  before a line feed that ends it. When \<open>.+\<close> and \<open>$\<close> fail, the engine gives back
  one white space character, then one \<open>#\<close>, and tries again. A shorter \<open>.+\<close> never
  helps: it stops before a character that is not a line feed.
\<close>

definition dot_plus_eol :: "ustring \<Rightarrow> ustring option" where
  "dot_plus_eol s =
     (let d = takeWhile (\<lambda>c. c \<noteq> 10) s; r = dropWhile (\<lambda>c. c \<noteq> 10) s
      in if d \<noteq> [] \<and> (r = [] \<or> r = [10]) then Some d else None)"

fun try_spaces :: "nat \<Rightarrow> ustring \<Rightarrow> ustring option" where
  "try_spaces 0 s = dot_plus_eol s"
| "try_spaces (Suc j) s =
     (case dot_plus_eol (drop (Suc j) s) of
        Some d \<Rightarrow> Some d
      | None \<Rightarrow> try_spaces j s)"

fun try_hashes :: "nat \<Rightarrow> ustring \<Rightarrow> (nat \<times> ustring) option" where
  "try_hashes 0 s = None"
| "try_hashes (Suc k) s =
     (let rest = drop (Suc k) s
      in case try_spaces (length (takeWhile is_space rest)) rest of
           Some d \<Rightarrow> Some (Suc k, d)
         | None \<Rightarrow> try_hashes k s)"

text \<open>The groups of the match: the length of group 1 and group 2, or \<open>None\<close>.\<close>

definition heading_match :: "ustring \<Rightarrow> (nat \<times> ustring) option" where
  "heading_match ln = try_hashes (min 6 (length (takeWhile (\<lambda>c. c = 35) ln))) ln"

section \<open>The heading index\<close>

type_synonym heading = "nat \<times> nat \<times> ustring"

text \<open>The loop of \<open>parse_headings\<close> over \<open>enumerate(lines)\<close>, from index \<open>i\<close>.\<close>

fun parse_from :: "nat \<Rightarrow> ustring list \<Rightarrow> heading list" where
  "parse_from i [] = []"
| "parse_from i (ln # lns) =
     (case heading_match ln of
        Some (level, g2) \<Rightarrow> (i, level, strip g2) # parse_from (Suc i) lns
      | None \<Rightarrow> parse_from (Suc i) lns)"

definition parse_headings :: "ustring list \<Rightarrow> heading list" where
  "parse_headings lines = parse_from 0 lines"


section \<open>Paragraphs\<close>

text \<open>
  \<open>re.match(r'^(#{1,6})\s*', ln)\<close> in \<open>all_paragraphs\<close>: after one \<open>#\<close> nothing
  in this pattern can fail, so it matches the lines that start with \<open>#\<close>.
\<close>

definition heading_prefix :: "ustring \<Rightarrow> bool" where
  "heading_prefix ln \<longleftrightarrow> 1 \<le> min 6 (length (takeWhile (\<lambda>c. c = 35) ln))"

text \<open>
  The loop of \<open>all_paragraphs\<close>, with its two variables \<open>paras\<close> and \<open>buf\<close>; the
  equation for the empty list is the flush after the loop.
\<close>

fun paragraphs_loop :: "ustring list \<Rightarrow> ustring list \<Rightarrow> ustring list \<Rightarrow> ustring list" where
  "paragraphs_loop paras buf [] =
     (if buf \<noteq> [] then paras @ [strip (join [10] buf)] else paras)"
| "paragraphs_loop paras buf (ln # lns) =
     (if heading_prefix ln then paragraphs_loop paras buf lns
      else if strip ln = [] then
        (if buf \<noteq> [] then paragraphs_loop (paras @ [strip (join [10] buf)]) [] lns
         else paragraphs_loop paras buf lns)
      else paragraphs_loop paras (buf @ [ln]) lns)"

definition all_paragraphs :: "ustring list \<Rightarrow> ustring list" where
  "all_paragraphs lines = paragraphs_loop [] [] lines"

section \<open>Sections by title\<close>

text \<open>
  The inner loop of \<open>get_section\<close> (the same loop stands in
  \<open>pseudocodigo_diagrama\<close> and \<open>sugerencias_copilot\<close>): \<open>end\<close> starts as \<open>e\<close> and
  becomes the position of the first heading of the list that lies after \<open>idx\<close> and
  has a level of at most \<open>level\<close>.
\<close>

fun section_end :: "heading list \<Rightarrow> nat \<Rightarrow> nat \<Rightarrow> nat \<Rightarrow> nat" where
  "section_end [] idx level e = e"
| "section_end ((idx2, level2, t) # hs) idx level e =
     (if idx2 > idx \<and> level2 \<le> level then idx2 else section_end hs idx level e)"

text \<open>
  The outer loop of \<open>get_section\<close>. \<open>lower\<close> is \<open>str.lower\<close>: the case tables of
  Unicode are no part of the program, so the function is a parameter. The loop returns
  at the first heading whose lower-cased title contains the lower-cased query; when it
  runs out, the result is the empty list.
\<close>

fun get_section_loop ::
  "(ustring \<Rightarrow> ustring) \<Rightarrow> ustring list \<Rightarrow> ustring \<Rightarrow> heading list \<Rightarrow> heading list \<Rightarrow> ustring list"
where
  "get_section_loop lower lines title_search headings [] = []"
| "get_section_loop lower lines title_search headings ((idx, level, title) # hs) =
     (if contains (lower title_search) (lower title)
      then slice lines (idx + 1) (section_end headings idx level (length lines))
      else get_section_loop lower lines title_search headings hs)"

definition get_section :: "(ustring \<Rightarrow> ustring) \<Rightarrow> ustring list \<Rightarrow> ustring \<Rightarrow> ustring list" where
  "get_section lower lines title_search =
     (let headings = parse_headings lines
      in get_section_loop lower lines title_search headings headings)"

section \<open>Fenced code\<close>

text \<open>The loop of \<open>extract_code_block\<close> with its variables \<open>inside_code\<close> and \<open>code_lines\<close>.\<close>

fun code_loop :: "bool \<Rightarrow> ustring list \<Rightarrow> ustring list \<Rightarrow> ustring list" where
  "code_loop inside_code code_lines [] = code_lines"
| "code_loop inside_code code_lines (ln # lns) =
     (if starts_with [96, 96, 96] (strip ln) then code_loop (\<not> inside_code) code_lines lns
      else if inside_code then code_loop inside_code (code_lines @ [ln]) lns
      else code_loop inside_code code_lines lns)"

definition extract_code_block :: "ustring list \<Rightarrow> ustring" where
  "extract_code_block lines = strip (join [10] (code_loop False [] lines))"

section \<open>Normalisation\<close>

text \<open>
  \<open>_norm\<close>: canonical decomposition (NFD), the characters of category \<open>Mn\<close> removed,
  then lower case. The decomposition, the category and the case mapping come from the
  Unicode tables of the Python library, so they are parameters: \<open>nfd\<close>, \<open>mn\<close> and
  \<open>lower\<close>.
\<close>

definition norm :: "(ustring \<Rightarrow> ustring) \<Rightarrow> (uchar \<Rightarrow> bool) \<Rightarrow> (ustring \<Rightarrow> ustring) \<Rightarrow> ustring \<Rightarrow> ustring" where
  "norm nfd mn lower s = lower (filter (\<lambda>c. \<not> mn c) (nfd s))"

text \<open>
  The tables on the code points below 256 (ASCII and Latin-1), for evaluation on
  concrete documents. Canonical decompositions: the accented Latin-1 letters, each a
  base letter and one combining mark.
\<close>

definition latin1_decomposition :: "(uchar \<times> ustring) list" where
  "latin1_decomposition =
     [(192, [65, 768]), (193, [65, 769]), (194, [65, 770]), (195, [65, 771]),
      (196, [65, 776]), (197, [65, 778]), (199, [67, 807]), (200, [69, 768]),
      (201, [69, 769]), (202, [69, 770]), (203, [69, 776]), (204, [73, 768]),
      (205, [73, 769]), (206, [73, 770]), (207, [73, 776]), (209, [78, 771]),
      (210, [79, 768]), (211, [79, 769]), (212, [79, 770]), (213, [79, 771]),
      (214, [79, 776]), (217, [85, 768]), (218, [85, 769]), (219, [85, 770]),
      (220, [85, 776]), (221, [89, 769]), (224, [97, 768]), (225, [97, 769]),
      (226, [97, 770]), (227, [97, 771]), (228, [97, 776]), (229, [97, 778]),
      (231, [99, 807]), (232, [101, 768]), (233, [101, 769]), (234, [101, 770]),
      (235, [101, 776]), (236, [105, 768]), (237, [105, 769]), (238, [105, 770]),
      (239, [105, 776]), (241, [110, 771]), (242, [111, 768]), (243, [111, 769]),
      (244, [111, 770]), (245, [111, 771]), (246, [111, 776]), (249, [117, 768]),
      (250, [117, 769]), (251, [117, 770]), (252, [117, 776]), (253, [121, 769]),
      (255, [121, 776])]"

text \<open>
  \<open>unicodedata.normalize('NFD', s)\<close> for a string of code points below 256: each
  character is replaced by its decomposition (no reordering of marks arises).
\<close>

definition nfd_latin1 :: "ustring \<Rightarrow> ustring" where
  "nfd_latin1 s =
     concat (map (\<lambda>c. case map_of latin1_decomposition c of Some d \<Rightarrow> d | None \<Rightarrow> [c]) s)"

text \<open>
  \<open>unicodedata.category(c) == 'Mn'\<close> for a code point below 880: the block of the
  combining diacritical marks, U+0300 to U+036F.
\<close>

definition mn_latin1 :: "uchar \<Rightarrow> bool" where
  "mn_latin1 c \<longleftrightarrow> 768 \<le> c \<and> c \<le> 879"

text \<open>
  \<open>s.lower()\<close> for a string of code points below 256 and combining marks: the
  capital letters A to Z and U+00C0 to U+00DE (the multiplication sign U+00D7 apart)
  move up by 32.
\<close>

definition lower_latin1 :: "ustring \<Rightarrow> ustring" where
  "lower_latin1 s =
     map (\<lambda>c. if (65 \<le> c \<and> c \<le> 90) \<or> (192 \<le> c \<and> c \<le> 222 \<and> c \<noteq> 215) then c + 32 else c) s"

definition norm_latin1 :: "ustring \<Rightarrow> ustring" where
  "norm_latin1 s = norm nfd_latin1 mn_latin1 lower_latin1 s"

text \<open>
  \<open>s.lower()\<close> beyond Latin-1 is not a mapping of single characters: the Greek capital
  sigma (U+03A3) becomes the final sigma (U+03C2) when a cased letter stands before it
  and none after it, case-ignorable characters set aside, and the small sigma (U+03C3)
  otherwise. The next definitions are \<open>str.lower\<close> on the strings of code points below
  256 and of the Greek letters U+0391, U+03A3, U+03B1, U+03C2 and U+03C3: the cased and
  the case-ignorable characters among them, the mapping of a single character, and the
  scan with the rule of the sigma. \<open>prev\<close> says that the last character before the
  current one that is not case-ignorable is cased.
\<close>

definition case_ignorable :: "uchar \<Rightarrow> bool" where
  "case_ignorable c \<longleftrightarrow> c \<in> {39, 46, 58, 94, 96, 168, 173, 175, 180, 183, 184}"

definition cased :: "uchar \<Rightarrow> bool" where
  "cased c \<longleftrightarrow>
     (65 \<le> c \<and> c \<le> 90) \<or> (97 \<le> c \<and> c \<le> 122) \<or> c = 170 \<or> c = 181 \<or> c = 186 \<or>
     (192 \<le> c \<and> c \<le> 214) \<or> (216 \<le> c \<and> c \<le> 246) \<or> (248 \<le> c \<and> c \<le> 255) \<or>
     c = 913 \<or> c = 931 \<or> c = 945 \<or> c = 962 \<or> c = 963"

definition lower_char :: "uchar \<Rightarrow> uchar" where
  "lower_char c =
     (if (65 \<le> c \<and> c \<le> 90) \<or> (192 \<le> c \<and> c \<le> 222 \<and> c \<noteq> 215) \<or> c = 913 \<or> c = 931
      then c + 32 else c)"

definition cased_ahead :: "ustring \<Rightarrow> bool" where
  "cased_ahead cs = (case dropWhile case_ignorable cs of [] \<Rightarrow> False | d # ds \<Rightarrow> cased d)"

fun lower_from :: "bool \<Rightarrow> ustring \<Rightarrow> ustring" where
  "lower_from prev [] = []"
| "lower_from prev (c # cs) =
     (if c = 931 then (if prev \<and> \<not> cased_ahead cs then 962 else 963) else lower_char c)
     # lower_from (if case_ignorable c then prev else cased c) cs"

definition lower_str :: "ustring \<Rightarrow> ustring" where
  "lower_str s = lower_from False s"


section \<open>Ranges between two headings\<close>

text \<open>
  The scanning loop of both branches of \<open>dataset\<close>: one pass over the headings that
  keeps, for the start and for the end, the position of the first heading that
  satisfies its test of the level and the normalised title. \<open>nrm\<close> is \<open>_norm\<close>.
\<close>

fun dataset_scan ::
  "(ustring \<Rightarrow> ustring) \<Rightarrow> (nat \<Rightarrow> ustring \<Rightarrow> bool) \<Rightarrow> (nat \<Rightarrow> ustring \<Rightarrow> bool) \<Rightarrow>
   heading list \<Rightarrow> nat option \<Rightarrow> nat option \<Rightarrow> nat option \<times> nat option"
where
  "dataset_scan nrm ps pe [] a b = (a, b)"
| "dataset_scan nrm ps pe ((idx, level, title) # hs) a b =
     (let n = nrm title;
          a' = (if a = None \<and> ps level n then Some idx else a);
          b' = (if b = None \<and> pe level n then Some idx else b)
      in dataset_scan nrm ps pe hs a' b')"

datatype not_found = start_missing | end_missing

text \<open>
  Branch \<open>a\<close>: without a start the message of the missing section; without an end,
  or with an end that is not after the start, the message of the missing subtitle;
  otherwise the lines from the start heading to the end heading.
\<close>

definition dataset_a ::
  "(ustring \<Rightarrow> ustring) \<Rightarrow> (nat \<Rightarrow> ustring \<Rightarrow> bool) \<Rightarrow> (nat \<Rightarrow> ustring \<Rightarrow> bool) \<Rightarrow>
   ustring list \<Rightarrow> not_found + ustring list"
where
  "dataset_a nrm ps pe lines =
     (case dataset_scan nrm ps pe (parse_headings lines) None None of
        (None, b) \<Rightarrow> Inl start_missing
      | (Some ds_idx, None) \<Rightarrow> Inl end_missing
      | (Some ds_idx, Some tabla_idx) \<Rightarrow>
          if tabla_idx \<le> ds_idx then Inl end_missing
          else Inr (slice lines ds_idx tabla_idx))"

text \<open>
  Branch \<open>b\<close>: without a start the message of the missing subtitle; the end is the
  position found when it is truthy (not \<open>None\<close> and not \<open>0\<close>) and after the start,
  and the length of the document otherwise.
\<close>

definition dataset_b ::
  "(ustring \<Rightarrow> ustring) \<Rightarrow> (nat \<Rightarrow> ustring \<Rightarrow> bool) \<Rightarrow> (nat \<Rightarrow> ustring \<Rightarrow> bool) \<Rightarrow>
   ustring list \<Rightarrow> not_found + ustring list"
where
  "dataset_b nrm ps pe lines =
     (case dataset_scan nrm ps pe (parse_headings lines) None None of
        (None, b) \<Rightarrow> Inl start_missing
      | (Some tabla_idx, prog) \<Rightarrow>
          (let end_idx =
             (case prog of
                Some prog_idx \<Rightarrow>
                  if prog_idx \<noteq> 0 \<and> prog_idx > tabla_idx then prog_idx else length lines
              | None \<Rightarrow> length lines)
           in Inr (slice lines tabla_idx end_idx)))"

text \<open>The tests of the two branches, on the level and the normalised title.\<close>

definition is_dataset_referencia :: "nat \<Rightarrow> ustring \<Rightarrow> bool" where
  "is_dataset_referencia level n \<longleftrightarrow>
     level = 2 \<and> contains (ustr ''dataset'') n \<and> contains (ustr ''referenc'') n"

definition is_tabla_clientes :: "nat \<Rightarrow> ustring \<Rightarrow> bool" where
  "is_tabla_clientes level n \<longleftrightarrow>
     level = 3 \<and> contains (ustr ''tabla'') n \<and> contains (ustr ''clientes'') n"

definition is_programa_interactivo :: "nat \<Rightarrow> ustring \<Rightarrow> bool" where
  "is_programa_interactivo level n \<longleftrightarrow>
     level = 2 \<and> contains (ustr ''programa'') n \<and> contains (ustr ''interact'') n"

definition dataset_resumen :: "(ustring \<Rightarrow> ustring) \<Rightarrow> ustring list \<Rightarrow> not_found + ustring list" where
  "dataset_resumen nrm lines = dataset_a nrm is_dataset_referencia is_tabla_clientes lines"

definition dataset_detalle :: "(ustring \<Rightarrow> ustring) \<Rightarrow> ustring list \<Rightarrow> not_found + ustring list" where
  "dataset_detalle nrm lines = dataset_b nrm is_tabla_clientes is_programa_interactivo lines"

section \<open>Subsections of a section\<close>

text \<open>
  The inner loop of the collection in \<open>sugerencias_copilot\<close>: the end of a subsection
  is the first heading after it, before \<open>e\<close>, of a level of at most its own, and
  \<open>e\<close> without one.
\<close>

fun sub_end :: "heading list \<Rightarrow> nat \<Rightarrow> nat \<Rightarrow> nat \<Rightarrow> nat" where
  "sub_end [] idx level e = e"
| "sub_end ((idx2, level2, t) # hs) idx level e =
     (if idx2 > idx \<and> idx2 < e \<and> level2 \<le> level then idx2 else sub_end hs idx level e)"

text \<open>
  The outer loop: every heading of level 2 or 3 with its position in \<open>[s, e)\<close> gives
  the range from its own line to its end.
\<close>

fun sub_ranges :: "heading list \<Rightarrow> heading list \<Rightarrow> nat \<Rightarrow> nat \<Rightarrow> (nat \<times> nat) list" where
  "sub_ranges headings [] s e = []"
| "sub_ranges headings ((idx, level, t) # hs) s e =
     (if idx < s \<or> idx \<ge> e then sub_ranges headings hs s e
      else if level = 2 \<or> level = 3
        then (idx, sub_end headings idx level e) # sub_ranges headings hs s e
      else sub_ranges headings hs s e)"

text \<open>
  The ranges whose lines \<open>sugerencias_copilot\<close> shows for the outer range \<open>[s, e)\<close>:
  the subsections, or the outer range itself when there is none.
\<close>

definition partition_subsections :: "ustring list \<Rightarrow> nat \<Rightarrow> nat \<Rightarrow> (nat \<times> nat) list" where
  "partition_subsections lines s e =
     (let headings = parse_headings lines; rs = sub_ranges headings headings s e
      in if rs = [] then [(s, e)] else rs)"

text \<open>The search of the target heading, with its \<open>break\<close>.\<close>

fun find_target :: "(ustring \<Rightarrow> ustring) \<Rightarrow> heading list \<Rightarrow> (nat \<times> nat) option" where
  "find_target lower [] = None"
| "find_target lower ((idx, level, title) # hs) =
     (if contains (ustr ''sugerencias copilot'') (lower title) then Some (idx, level)
      else find_target lower hs)"

text \<open>
  What \<open>sugerencias_copilot\<close> passes to \<open>show_text\<close>: one of its two messages, or
  a text (each range joined by line feeds and stripped, the pieces joined by an empty
  line).
\<close>

datatype shown = no_section | no_content | content ustring

definition sugerencias_copilot :: "(ustring \<Rightarrow> ustring) \<Rightarrow> ustring list \<Rightarrow> shown" where
  "sugerencias_copilot lower lines =
     (let headings = parse_headings lines
      in case find_target lower headings of
           None \<Rightarrow> no_section
         | Some (target_idx, target_level) \<Rightarrow>
             (let start = target_idx;
                  e = section_end headings start target_level (length lines);
                  sections = map (\<lambda>(a, b). strip (join [10] (slice lines a b)))
                               (sub_ranges headings headings start e)
              in if sections = [] then
                   (let out = strip (join [10] (slice lines start e))
                    in if out \<noteq> [] then content out else no_content)
                 else content (join [10, 10] sections)))"

section \<open>The notions of the specification\<close>

text \<open>
  The level and the title \<open>parse_headings\<close> records for a line: the length of the
  first group of the match, and the second group stripped.
\<close>

definition heading_of :: "ustring \<Rightarrow> (nat \<times> ustring) option" where
  "heading_of ln = map_option (\<lambda>(level, g2). (level, strip g2)) (heading_match ln)"

text \<open>
  A heading as the specification words it: one to six \<open>#\<close>, then white space, then
  text; the level is the number of \<open>#\<close>, the title the rest of the line, trimmed.
\<close>

definition atx_strict :: "ustring \<Rightarrow> (nat \<times> ustring) option" where
  "atx_strict ln =
     (let n = length (takeWhile (\<lambda>c. c = 35) ln); rest = drop n ln
      in if 1 \<le> n \<and> n \<le> 6 \<and> rest \<noteq> [] \<and> is_space (hd rest) \<and> strip rest \<noteq> []
         then Some (n, strip rest) else None)"

text \<open>
  What the pattern accepts on a line without a line feed: a line of two characters at
  least that starts with \<open>#\<close>. The level is the number of leading \<open>#\<close>, but six at
  most and one character of the line at least is left for the title; the title is the
  rest of the line, trimmed, and may be empty.
\<close>

definition atx_loose :: "ustring \<Rightarrow> (nat \<times> ustring) option" where
  "atx_loose ln =
     (let n = length (takeWhile (\<lambda>c. c = 35) ln); k = min 6 (min n (length ln - 1))
      in if 1 \<le> n \<and> 2 \<le> length ln then Some (k, strip (drop k ln)) else None)"

text \<open>
  Line \<open>j\<close> of the document is a heading whose title contains the query as a
  substring, both lower-cased: the test \<open>get_section\<close> makes, with no normalisation
  of diacritics.
\<close>

definition title_matches :: "(ustring \<Rightarrow> ustring) \<Rightarrow> ustring list \<Rightarrow> ustring \<Rightarrow> nat \<Rightarrow> bool" where
  "title_matches lower lines q j \<longleftrightarrow>
     j < length lines \<and>
     (case heading_of (lines ! j) of
        Some (l, t) \<Rightarrow> contains (lower q) (lower t)
      | None \<Rightarrow> False)"

text \<open>Line \<open>j\<close> of the document is a heading of level \<open>L\<close> or of a smaller level.\<close>

definition shallow_heading :: "ustring list \<Rightarrow> nat \<Rightarrow> nat \<Rightarrow> bool" where
  "shallow_heading lines L j \<longleftrightarrow>
     j < length lines \<and>
     (case heading_of (lines ! j) of Some (l, t) \<Rightarrow> l \<le> L | None \<Rightarrow> False)"

text \<open>
  Line \<open>j\<close> of the document is a heading that satisfies the test \<open>pr\<close> of a level
  and a normalised title.
\<close>

definition heading_satisfies ::
  "(ustring \<Rightarrow> ustring) \<Rightarrow> (nat \<Rightarrow> ustring \<Rightarrow> bool) \<Rightarrow> ustring list \<Rightarrow> nat \<Rightarrow> bool"
where
  "heading_satisfies nrm pr lines j \<longleftrightarrow>
     j < length lines \<and>
     (case heading_of (lines ! j) of Some (l, t) \<Rightarrow> pr l (nrm t) | None \<Rightarrow> False)"

text \<open>Line \<open>j\<close> of the document is a heading of level 2 or 3.\<close>

definition sub_heading :: "ustring list \<Rightarrow> nat \<Rightarrow> bool" where
  "sub_heading lines j \<longleftrightarrow>
     j < length lines \<and>
     (case heading_of (lines ! j) of Some (l, t) \<Rightarrow> l = 2 \<or> l = 3 | None \<Rightarrow> False)"

text \<open>
  The maximal runs of a list: the longest stretches of neighbouring elements that
  satisfy \<open>P\<close>, in order. A run starts at an element that satisfies \<open>P\<close>, takes every
  element up to the next one that does not, and the search goes on behind it.
\<close>

function maximal_runs :: "('a \<Rightarrow> bool) \<Rightarrow> 'a list \<Rightarrow> 'a list list" where
  "maximal_runs P [] = []"
| "maximal_runs P (x # xs) =
     (if P x then (x # takeWhile P xs) # maximal_runs P (dropWhile P xs)
      else maximal_runs P xs)"
  by pat_completeness auto
termination
  by (relation "measure (\<lambda>(P, xs). length xs)")
    (auto simp: less_Suc_eq_le length_dropWhile_le)

text \<open>A fence line: its content, stripped, starts with three backticks.\<close>

definition is_fence :: "ustring \<Rightarrow> bool" where
  "is_fence ln \<longleftrightarrow> starts_with [96, 96, 96] (strip ln)"

text \<open>
  Line \<open>i\<close> stands inside code: the number of fence lines before it is odd, that is
  the flag, toggled at each of them, is set.
\<close>

definition inside_code :: "ustring list \<Rightarrow> nat \<Rightarrow> bool" where
  "inside_code lines i \<longleftrightarrow> odd (length (filter is_fence (take i lines)))"




text \<open>
  Two strings differ only in letter case and diacritics when they have the same length
  and the same letter at each position: \<open>list_all2 same_letter\<close>.
\<close>



section \<open>Evaluation on concrete documents\<close>

text \<open>The definitions the simplifier unfolds to evaluate the functions on a concrete document.\<close>

lemmas eval_simps =
  ustr_def is_space_def strip_def slice_def dot_plus_eol_def heading_match_def
  parse_headings_def heading_of_def atx_strict_def atx_loose_def Let_def
  get_section_def title_matches_def shallow_heading_def lower_latin1_def
  heading_satisfies_def norm_def nfd_latin1_def latin1_decomposition_def mn_latin1_def
  norm_latin1_def dataset_a_def dataset_b_def dataset_resumen_def dataset_detalle_def
  is_dataset_referencia_def is_tabla_clientes_def is_programa_interactivo_def
  sub_heading_def partition_subsections_def all_paragraphs_def heading_prefix_def
  extract_code_block_def

section \<open>The heading pattern on a line without a line feed\<close>

lemma dot_plus_eol_no_nl: "10 \<notin> set s \<Longrightarrow> dot_plus_eol s = (if s = [] then None else Some s)"
proof -
  assume a: "10 \<notin> set s"
  have tw: "takeWhile (\<lambda>c. c \<noteq> 10) s = s"
    using a by (auto simp: takeWhile_eq_all_conv)
  have dw: "dropWhile (\<lambda>c. c \<noteq> 10) s = []"
    using a by auto
  show ?thesis unfolding dot_plus_eol_def Let_def tw dw by simp
qed

lemma dot_plus_eol_Nil: "dot_plus_eol [] = None"
  by (simp add: dot_plus_eol_def)

lemma try_spaces_no_nl:
  "10 \<notin> set s \<Longrightarrow> try_spaces j s = (if s = [] then None else Some (drop (min j (length s - 1)) s))"
proof (induction j)
  case 0
  then show ?case by (simp add: dot_plus_eol_no_nl)
next
  case (Suc j)
  from Suc.prems have nl: "10 \<notin> set (drop (Suc j) s)" by (auto dest: in_set_dropD)
  show ?case
  proof (cases "length s \<le> Suc j")
    case True
    then have "min (Suc j) (length s - 1) = min j (length s - 1)" by simp
    with True Suc show ?thesis by (simp add: dot_plus_eol_Nil)
  next
    case False
    then have "min (Suc j) (length s - 1) = Suc j" by simp
    moreover from False have "drop (Suc j) s \<noteq> []" "s \<noteq> []" by auto
    ultimately show ?thesis by (simp add: dot_plus_eol_no_nl[OF nl])
  qed
qed

lemma dropWhile_drop_prefix:
  "j \<le> length (takeWhile P s) \<Longrightarrow> dropWhile P (drop j s) = dropWhile P s"
proof -
  assume j: "j \<le> length (takeWhile P s)"
  from j have "j - length (takeWhile P s) = 0" by simp
  then have "drop j (takeWhile P s @ dropWhile P s) = drop j (takeWhile P s) @ dropWhile P s"
    by (simp only: drop_append drop_0)
  then have "drop j s = drop j (takeWhile P s) @ dropWhile P s"
    by (simp only: takeWhile_dropWhile_id)
  then have "dropWhile P (drop j s) = dropWhile P (drop j (takeWhile P s) @ dropWhile P s)"
    by (rule arg_cong)
  also have "\<dots> = dropWhile P (dropWhile P s)"
    by (rule dropWhile_append2) (auto dest!: in_set_dropD set_takeWhileD)
  also have "\<dots> = dropWhile P s" by simp
  finally show ?thesis .
qed

lemma strip_drop_spaces: "j \<le> length (takeWhile is_space s) \<Longrightarrow> strip (drop j s) = strip s"
  by (simp add: strip_def dropWhile_drop_prefix)

lemma try_hashes_no_nl:
  "10 \<notin> set s \<Longrightarrow>
   map_option (\<lambda>(level, g2). (level, strip g2)) (try_hashes k s) =
     (if k = 0 \<or> length s < 2 then None
      else Some (min k (length s - 1), strip (drop (min k (length s - 1)) s)))"
proof (induction k)
  case 0
  then show ?case by simp
next
  case (Suc k)
  let ?rest = "drop (Suc k) s"
  let ?w = "length (takeWhile is_space ?rest)"
  from Suc.prems have nl: "10 \<notin> set ?rest" by (auto dest: in_set_dropD)
  show ?case
  proof (cases "length s \<le> Suc k")
    case True
    then have "try_spaces ?w ?rest = None" using try_spaces_no_nl[OF nl, of ?w] by simp
    moreover from True have "min (Suc k) (length s - 1) = min k (length s - 1)" by simp
    ultimately show ?thesis using Suc True by (auto simp: Let_def)
  next
    case False
    then have ne: "?rest \<noteq> []" by simp
    have "strip (drop (min ?w (length ?rest - 1)) ?rest) = strip ?rest"
      by (rule strip_drop_spaces) simp
    moreover from False have "min (Suc k) (length s - 1) = Suc k" by simp
    ultimately show ?thesis using False ne by (simp add: try_spaces_no_nl[OF nl] Let_def)
  qed
qed

lemma heading_of_no_nl: "10 \<notin> set ln \<Longrightarrow> heading_of ln = atx_loose ln"
proof -
  assume nl: "10 \<notin> set ln"
  let ?n = "length (takeWhile (\<lambda>c. c = 35) ln)"
  have m: "min (min 6 ?n) (length ln - 1) = min 6 (min ?n (length ln - 1))"
    by (simp add: min.assoc)
  have z: "min 6 ?n = 0 \<longleftrightarrow> \<not> 1 \<le> ?n"
    by (cases "?n") simp_all
  have l: "length ln < 2 \<longleftrightarrow> \<not> 2 \<le> length ln"
    by arith
  show ?thesis
    unfolding heading_of_def heading_match_def atx_loose_def Let_def
      try_hashes_no_nl[OF nl] m z l
    by simp
qed

lemma atx_strict_loose: "atx_strict ln = Some x \<Longrightarrow> atx_loose ln = Some x"
proof -
  assume a: "atx_strict ln = Some x"
  let ?n = "length (takeWhile (\<lambda>c. c = 35) ln)"
  from a have n: "1 \<le> ?n" "?n \<le> 6" and r: "drop ?n ln \<noteq> []" and x: "x = (?n, strip (drop ?n ln))"
    by (auto simp: atx_strict_def Let_def split: if_splits)
  from r have "?n < length ln" by simp
  with n have "min 6 (min ?n (length ln - 1)) = ?n" "2 \<le> length ln" by auto
  with n x show ?thesis by (simp add: atx_loose_def Let_def)
qed

lemma try_hashes_level: "try_hashes k s = Some (l, g) \<Longrightarrow> 1 \<le> l \<and> l \<le> k"
  by (induction k) (auto simp: Let_def split: option.splits)

lemma heading_of_level: "heading_of ln = Some (l, t) \<Longrightarrow> 1 \<le> l \<and> l \<le> 6"
  by (auto simp: heading_of_def heading_match_def dest!: try_hashes_level)

lemma parse_from_set:
  "(p, l, t) \<in> set (parse_from i lines) \<longleftrightarrow>
   (\<exists>j<length lines. p = i + j \<and> heading_of (lines ! j) = Some (l, t))"
proof (induction lines arbitrary: i)
  case Nil
  then show ?case by simp
next
  case (Cons ln lns)
  have ex: "(\<exists>j<length (ln # lns). p = i + j \<and> heading_of ((ln # lns) ! j) = Some (l, t)) \<longleftrightarrow>
        (p = i \<and> heading_of ln = Some (l, t)) \<or>
        (\<exists>j<length lns. p = Suc i + j \<and> heading_of (lns ! j) = Some (l, t))"
    (is "?L \<longleftrightarrow> ?A \<or> ?B")
  proof
    assume ?L
    then obtain j where j: "j < length (ln # lns)" "p = i + j" "heading_of ((ln # lns) ! j) = Some (l, t)"
      by blast
    show "?A \<or> ?B"
    proof (cases j)
      case 0
      with j show ?thesis by simp
    next
      case (Suc j')
      with j have "j' < length lns \<and> p = Suc i + j' \<and> heading_of (lns ! j') = Some (l, t)" by simp
      then show ?thesis by blast
    qed
  next
    assume "?A \<or> ?B"
    then show ?L
    proof
      assume ?A
      then have "0 < length (ln # lns) \<and> p = i + 0 \<and> heading_of ((ln # lns) ! 0) = Some (l, t)" by simp
      then show ?L by blast
    next
      assume ?B
      then obtain j where "j < length lns" "p = Suc i + j" "heading_of (lns ! j) = Some (l, t)" by blast
      then have "Suc j < length (ln # lns) \<and> p = i + Suc j \<and> heading_of ((ln # lns) ! Suc j) = Some (l, t)"
        by simp
      then show ?L by blast
    qed
  qed
  show ?case
    unfolding ex using Cons.IH[of "Suc i"]
    by (auto simp: heading_of_def split: option.splits)
qed

lemma parse_from_ge: "x \<in> set (parse_from i lines) \<Longrightarrow> i \<le> fst x"
  by (cases x) (auto simp: parse_from_set)

lemma parse_from_sorted: "sorted_wrt (<) (map fst (parse_from i lines))"
proof (induction lines arbitrary: i)
  case Nil
  then show ?case by simp
next
  case (Cons ln lns)
  have "\<forall>x\<in>set (parse_from (Suc i) lns). i < fst x"
    using parse_from_ge[of _ "Suc i" lns] by fastforce
  with Cons[of "Suc i"] show ?case by (auto split: option.splits)
qed

section \<open>The heading index\<close>

text \<open>
  Claim C1, as the code has it. \<open>parse_headings\<close> has one entry for each line the
  pattern matches and none for any other line: \<open>(p, l, t)\<close> is an entry exactly when
  line \<open>p\<close> matches with level \<open>l\<close> and title \<open>t\<close>. The positions increase strictly
  (so no line has two entries) and every level lies between 1 and 6. On a line without
  a line feed the pattern accepts more than the headings of the specification: the
  white space after the \<open>#\<close> is optional, a seventh \<open>#\<close> starts the title, and the
  title may be empty (\<open>atx_loose\<close>). A line that is a heading in the words of the
  specification (\<open>atx_strict\<close>) gets the level and the title the specification names.
\<close>

theorem parse_headings_index:
  "(\<forall>p l t. (p, l, t) \<in> set (parse_headings lines) \<longleftrightarrow>
       p < length lines \<and> heading_of (lines ! p) = Some (l, t)) \<and>
   sorted_wrt (<) (map fst (parse_headings lines)) \<and>
   (\<forall>(p, l, t) \<in> set (parse_headings lines). 1 \<le> l \<and> l \<le> 6) \<and>
   (\<forall>ln \<in> set lines. 10 \<notin> set ln \<longrightarrow> heading_of ln = atx_loose ln) \<and>
   (\<forall>ln \<in> set lines. 10 \<notin> set ln \<longrightarrow> (\<forall>x. atx_strict ln = Some x \<longrightarrow> heading_of ln = Some x))"
proof -
  have a: "\<forall>p l t. (p, l, t) \<in> set (parse_headings lines) \<longleftrightarrow>
       p < length lines \<and> heading_of (lines ! p) = Some (l, t)"
    by (auto simp: parse_headings_def parse_from_set)
  have b: "sorted_wrt (<) (map fst (parse_headings lines))"
    by (simp add: parse_headings_def parse_from_sorted)
  have c: "\<forall>(p, l, t) \<in> set (parse_headings lines). 1 \<le> l \<and> l \<le> 6"
    using a heading_of_level by blast
  have d: "\<forall>ln \<in> set lines. 10 \<notin> set ln \<longrightarrow> heading_of ln = atx_loose ln"
    by (simp add: heading_of_no_nl)
  have e: "\<forall>ln \<in> set lines. 10 \<notin> set ln \<longrightarrow> (\<forall>x. atx_strict ln = Some x \<longrightarrow> heading_of ln = Some x)"
    by (simp add: heading_of_no_nl atx_strict_loose)
  from a b c d e show ?thesis by blast
qed

text \<open>The theorem at a document of three lines, the second of which is no heading.\<close>

theorem parse_headings_index_witness:
  "(0, 1, ustr ''Title'') \<in> set (parse_headings [ustr ''# Title'', ustr ''text'', ustr ''##Sub'']) \<and>
   (2, 2, ustr ''Sub'') \<in> set (parse_headings [ustr ''# Title'', ustr ''text'', ustr ''##Sub'']) \<and>
   (1, 1, ustr ''ext'') \<notin> set (parse_headings [ustr ''# Title'', ustr ''text'', ustr ''##Sub'']) \<and>
   sorted_wrt (<) (map fst (parse_headings [ustr ''# Title'', ustr ''text'', ustr ''##Sub''])) \<and>
   10 \<notin> set (ustr ''##Sub'') \<and>
   heading_of (ustr ''##Sub'') = atx_loose (ustr ''##Sub'') \<and>
   atx_loose (ustr ''##Sub'') = Some (2, ustr ''Sub'') \<and>
   10 \<notin> set (ustr ''# Title'') \<and>
   atx_strict (ustr ''# Title'') = Some (1, ustr ''Title'') \<and>
   heading_of (ustr ''# Title'') = Some (1, ustr ''Title'')"
  using parse_headings_index [of "[ustr ''# Title'', ustr ''text'', ustr ''##Sub'']"]
  by (simp add: eval_simps)

text \<open>
  Claim C1 as it is stated fails: the lines \<open>#foo\<close> (no white space), \<open>####### x\<close>
  (seven \<open>#\<close>) and \<open>#\<close> followed by two spaces (no text) are no headings in the words
  of the specification, and each has an entry.
\<close>

theorem parse_headings_strict_counterexample:
  "parse_headings [ustr ''#foo''] = [(0, 1, ustr ''foo'')] \<and>
   atx_strict (ustr ''#foo'') = None \<and>
   parse_headings [ustr ''####### x''] = [(0, 6, ustr ''# x'')] \<and>
   atx_strict (ustr ''####### x'') = None \<and>
   parse_headings [ustr ''#  ''] = [(0, 1, [])] \<and>
   atx_strict (ustr ''#  '') = None"
  by (simp add: eval_simps)

section \<open>Sections by title: the range of the first match\<close>

text \<open>
  The headings are in the order of the document, so the first heading the loops meet
  is the one of the least position. The anchor of a query is the first line that is
  a heading whose title contains the query.
\<close>

lemma section_end_sorted:
  "sorted_wrt (<) (map fst hs) \<Longrightarrow>
   (section_end hs idx level e = e \<and> (\<forall>(p, l, t) \<in> set hs. \<not> (idx < p \<and> l \<le> level))) \<or>
   (\<exists>l t. (section_end hs idx level e, l, t) \<in> set hs \<and> idx < section_end hs idx level e \<and>
      l \<le> level \<and>
      (\<forall>(p, l', t') \<in> set hs. idx < p \<and> l' \<le> level \<longrightarrow> section_end hs idx level e \<le> p))"
proof (induction hs)
  case Nil
  then show ?case by simp
next
  case (Cons h hs)
  obtain p l t where h: "h = (p, l, t)" by (cases h)
  from Cons.prems h have less: "\<forall>x \<in> set hs. p < fst x" and srt: "sorted_wrt (<) (map fst hs)"
    by auto
  show ?case
  proof (cases "idx < p \<and> l \<le> level")
    case True
    from less have "\<forall>(p', l', t') \<in> set hs. idx < p' \<and> l' \<le> level \<longrightarrow> p \<le> p'"
      by fastforce
    with True h have "(section_end (h # hs) idx level e, l, t) \<in> set (h # hs) \<and>
        idx < section_end (h # hs) idx level e \<and> l \<le> level \<and>
        (\<forall>(p', l', t') \<in> set (h # hs). idx < p' \<and> l' \<le> level \<longrightarrow>
            section_end (h # hs) idx level e \<le> p')"
      by simp
    then show ?thesis by blast
  next
    case False
    with h Cons.IH[OF srt] show ?thesis by auto
  qed
qed

lemma section_end_lines:
  fixes lines :: "ustring list" and P L :: nat
  defines "E \<equiv> section_end (parse_headings lines) P L (length lines)"
  shows "E \<le> length lines"
    and "P < length lines \<Longrightarrow> P < E"
    and "\<forall>j. P < j \<and> j < E \<longrightarrow> \<not> shallow_heading lines L j"
    and "E = length lines \<or> shallow_heading lines L E"
proof -
  let ?hs = "parse_headings lines"
  have mem: "\<And>p l t. (p, l, t) \<in> set ?hs \<longleftrightarrow> p < length lines \<and> heading_of (lines ! p) = Some (l, t)"
    by (auto simp: parse_headings_def parse_from_set)
  have srt: "sorted_wrt (<) (map fst ?hs)"
    by (simp add: parse_headings_def parse_from_sorted)
  from section_end_sorted[OF srt, of P L "length lines"]
  consider
    (none) "E = length lines" "\<forall>(p, l, t) \<in> set ?hs. \<not> (P < p \<and> l \<le> L)"
  | (some) l t where "(E, l, t) \<in> set ?hs" "P < E" "l \<le> L"
      "\<forall>(p, l', t') \<in> set ?hs. P < p \<and> l' \<le> L \<longrightarrow> E \<le> p"
    unfolding E_def by blast
  then have "E \<le> length lines \<and> (P < length lines \<longrightarrow> P < E) \<and>
     (\<forall>j. P < j \<and> j < E \<longrightarrow> \<not> shallow_heading lines L j) \<and>
     (E = length lines \<or> shallow_heading lines L E)"
  proof cases
    case none
    have "\<not> shallow_heading lines L j" if "P < j" for j
    proof
      assume "shallow_heading lines L j"
      then obtain l t where "j < length lines" "heading_of (lines ! j) = Some (l, t)" "l \<le> L"
        by (auto simp: shallow_heading_def split: option.splits)
      then have "(j, l, t) \<in> set ?hs" "l \<le> L" by (simp_all add: mem)
      with none(2) that show False by auto
    qed
    with none(1) show ?thesis by simp
  next
    case some
    from some(1) have E: "E < length lines" "heading_of (lines ! E) = Some (l, t)"
      by (simp_all add: mem)
    have "\<not> shallow_heading lines L j" if "P < j" "j < E" for j
    proof
      assume "shallow_heading lines L j"
      then obtain l' t' where "j < length lines" "heading_of (lines ! j) = Some (l', t')" "l' \<le> L"
        by (auto simp: shallow_heading_def split: option.splits)
      then have "(j, l', t') \<in> set ?hs" "l' \<le> L" by (simp_all add: mem)
      with some(4) that(1) have "E \<le> j" by auto
      with that(2) show False by simp
    qed
    moreover from E some(3) have "shallow_heading lines L E"
      by (simp add: shallow_heading_def)
    ultimately show ?thesis using E(1) some(2) by simp
  qed
  then show "E \<le> length lines"
    and "P < length lines \<Longrightarrow> P < E"
    and "\<forall>j. P < j \<and> j < E \<longrightarrow> \<not> shallow_heading lines L j"
    and "E = length lines \<or> shallow_heading lines L E"
    by blast+
qed


lemma get_section_loop_first:
  "sorted_wrt (<) (map fst hs) \<Longrightarrow> (P, L, T) \<in> set hs \<Longrightarrow> contains (lower q) (lower T) \<Longrightarrow>
   \<forall>(p, l, t) \<in> set hs. p < P \<longrightarrow> \<not> contains (lower q) (lower t) \<Longrightarrow>
   get_section_loop lower lines q H hs = slice lines (P + 1) (section_end H P L (length lines))"
proof (induction hs)
  case Nil
  then show ?case by simp
next
  case (Cons h hs)
  obtain p l t where h: "h = (p, l, t)" by (cases h)
  from Cons.prems(1) h have less: "\<forall>x \<in> set hs. p < fst x" and srt: "sorted_wrt (<) (map fst hs)"
    by auto
  show ?case
  proof (cases "(P, L, T) = h")
    case True
    with h Cons.prems(3) show ?thesis by simp
  next
    case False
    with Cons.prems(2) have in_tl: "(P, L, T) \<in> set hs" by simp
    with less have "p < P" by fastforce
    with Cons.prems(4) h have "\<not> contains (lower q) (lower t)" by simp
    moreover from Cons.prems(4) have "\<forall>(p, l, t) \<in> set hs. p < P \<longrightarrow> \<not> contains (lower q) (lower t)"
      by simp
    ultimately show ?thesis
      using h Cons.IH[OF srt in_tl Cons.prems(3)] by simp
  qed
qed

lemma get_section_anchor:
  assumes "P < length lines" and "heading_of (lines ! P) = Some (L, T)"
    and "contains (lower q) (lower T)"
    and "\<forall>j<P. \<not> title_matches lower lines q j"
  shows "get_section lower lines q =
         slice lines (Suc P) (section_end (parse_headings lines) P L (length lines))"
proof -
  let ?hs = "parse_headings lines"
  have mem: "\<And>p l t. (p, l, t) \<in> set ?hs \<longleftrightarrow> p < length lines \<and> heading_of (lines ! p) = Some (l, t)"
    by (auto simp: parse_headings_def parse_from_set)
  have srt: "sorted_wrt (<) (map fst ?hs)"
    by (simp add: parse_headings_def parse_from_sorted)
  from assms(1,2) have in_hs: "(P, L, T) \<in> set ?hs" by (simp add: mem)
  have "\<forall>(p, l, t) \<in> set ?hs. p < P \<longrightarrow> \<not> contains (lower q) (lower t)"
  proof (clarify)
    fix p l t assume "(p, l, t) \<in> set ?hs" "p < P" "contains (lower q) (lower t)"
    then have "title_matches lower lines q p" by (simp add: mem title_matches_def)
    with assms(4) \<open>p < P\<close> show False by simp
  qed
  from get_section_loop_first[OF srt in_hs assms(3) this]
  show ?thesis by (simp add: get_section_def)
qed



lemma set_slice: "set (slice xs i j) = {xs ! k | k. i \<le> k \<and> k < j \<and> k < length xs}"
proof (intro set_eqI iffI)
  fix x assume "x \<in> set (slice xs i j)"
  then obtain n where n: "n < length (drop i (take j xs))" "x = drop i (take j xs) ! n"
    unfolding slice_def in_set_conv_nth by blast
  then have b: "i + n < j" "i + n < length xs" by auto
  then have "i \<le> length (take j xs)" by simp
  then have "drop i (take j xs) ! n = take j xs ! (i + n)" by (rule nth_drop)
  with n b have "x = xs ! (i + n)" by simp
  with b have "i + n < j" "i + n < length xs" "x = xs ! (i + n)" by auto
  then show "x \<in> {xs ! k | k. i \<le> k \<and> k < j \<and> k < length xs}" by force
next
  fix x assume "x \<in> {xs ! k | k. i \<le> k \<and> k < j \<and> k < length xs}"
  then obtain k where k: "x = xs ! k" "i \<le> k" "k < j" "k < length xs" by blast
  then have "i \<le> length (take j xs)" by simp
  then have "drop i (take j xs) ! (k - i) = take j xs ! (i + (k - i))" by (rule nth_drop)
  with k have "k - i < length (drop i (take j xs))" "drop i (take j xs) ! (k - i) = x" by auto
  then show "x \<in> set (slice xs i j)"
    unfolding slice_def in_set_conv_nth by blast
qed




text \<open>
  Claim C5. No line of the section \<open>get_section\<close> returns is a heading of the
  anchor's level or of a smaller level: a heading among the lines returned is deeper
  than the anchor.
\<close>

theorem get_section_excludes_shallow:
  assumes "P < length lines" and "heading_of (lines ! P) = Some (L, T)"
    and "contains (lower q) (lower T)"
    and "\<forall>j<P. \<not> title_matches lower lines q j"
  shows "\<forall>ln \<in> set (get_section lower lines q). \<forall>l t. heading_of ln = Some (l, t) \<longrightarrow> L < l"
proof (intro ballI allI impI)
  fix ln l t
  let ?E = "section_end (parse_headings lines) P L (length lines)"
  assume "ln \<in> set (get_section lower lines q)" and hd: "heading_of ln = Some (l, t)"
  then have "ln \<in> set (slice lines (Suc P) ?E)"
    by (simp add: get_section_anchor[OF assms])
  then obtain k where k: "ln = lines ! k" "Suc P \<le> k" "k < ?E" "k < length lines"
    by (auto simp: set_slice)
  with section_end_lines(3)[where lines=lines and P=P and L=L] have "\<not> shallow_heading lines L k" by simp
  with k hd show "L < l" by (simp add: shallow_heading_def)
qed

text \<open>
  The theorem at the document of seven lines: the heading of level 2 is in the section
  of the anchor of level 1, and the next heading of level 1 is not.
\<close>

theorem get_section_excludes_shallow_witness:
  "heading_of ([ustr ''intro'', ustr ''# Uno'', ustr ''a'', ustr ''## Sub'', ustr ''b'', ustr ''# Dos'', ustr ''c''] ! 1)
     = Some (1, ustr ''Uno'') \<and>
   contains (lower_latin1 (ustr ''UNO'')) (lower_latin1 (ustr ''Uno'')) \<and>
   \<not> title_matches lower_latin1
       [ustr ''intro'', ustr ''# Uno'', ustr ''a'', ustr ''## Sub'', ustr ''b'', ustr ''# Dos'', ustr ''c'']
       (ustr ''UNO'') 0 \<and>
   ustr ''## Sub'' \<in> set (get_section lower_latin1
     [ustr ''intro'', ustr ''# Uno'', ustr ''a'', ustr ''## Sub'', ustr ''b'', ustr ''# Dos'', ustr ''c'']
     (ustr ''UNO'')) \<and>
   heading_of (ustr ''## Sub'') = Some (2, ustr ''Sub'') \<and>
   (1::nat) < 2 \<and>
   ustr ''# Dos'' \<notin> set (get_section lower_latin1
     [ustr ''intro'', ustr ''# Uno'', ustr ''a'', ustr ''## Sub'', ustr ''b'', ustr ''# Dos'', ustr ''c'']
     (ustr ''UNO''))"
proof -
  let ?D = "[ustr ''intro'', ustr ''# Uno'', ustr ''a'', ustr ''## Sub'', ustr ''b'', ustr ''# Dos'', ustr ''c'']"
  have h1: "1 < length ?D" by simp
  have h2: "heading_of (?D ! 1) = Some (1, ustr ''Uno'')" by (simp add: eval_simps)
  have h3: "contains (lower_latin1 (ustr ''UNO'')) (lower_latin1 (ustr ''Uno''))"
    by (simp add: eval_simps)
  have h0: "\<not> title_matches lower_latin1 ?D (ustr ''UNO'') 0" by (simp add: eval_simps)
  then have h4: "\<forall>j<1. \<not> title_matches lower_latin1 ?D (ustr ''UNO'') j" by simp
  have m: "ustr ''## Sub'' \<in> set (get_section lower_latin1 ?D (ustr ''UNO''))"
    by (simp add: eval_simps)
  have hs: "heading_of (ustr ''## Sub'') = Some (2, ustr ''Sub'')" by (simp add: eval_simps)
  have d: "heading_of (ustr ''# Dos'') = Some (1, ustr ''Dos'')" by (simp add: eval_simps)
  from get_section_excludes_shallow[OF h1 h2 h3 h4] m hs have "(1::nat) < 2" by blast
  moreover from get_section_excludes_shallow[OF h1 h2 h3 h4] d
  have "ustr ''# Dos'' \<notin> set (get_section lower_latin1 ?D (ustr ''UNO''))" by fastforce
  ultimately show ?thesis using h2 h3 h0 m hs by blast
qed




section \<open>Ranges between two headings\<close>

text \<open>
  The scan keeps the first heading of the list that satisfies each test; the headings
  are in the order of the document, so these are the headings of the least positions.
\<close>

lemma dataset_scan_find:
  "dataset_scan nrm ps pe hs a b =
     (case a of Some x \<Rightarrow> Some x
        | None \<Rightarrow> map_option fst (find (\<lambda>(i, l, t). ps l (nrm t)) hs),
      case b of Some x \<Rightarrow> Some x
        | None \<Rightarrow> map_option fst (find (\<lambda>(i, l, t). pe l (nrm t)) hs))"
  by (induction hs arbitrary: a b) (auto simp: Let_def split: option.splits)

lemma find_first_sorted:
  "sorted_wrt (<) (map fst hs) \<Longrightarrow> (S, l, t) \<in> set hs \<Longrightarrow> Q (S, l, t) \<Longrightarrow>
   \<forall>x \<in> set hs. fst x < S \<longrightarrow> \<not> Q x \<Longrightarrow> find Q hs = Some (S, l, t)"
proof (induction hs)
  case Nil
  then show ?case by simp
next
  case (Cons h hs)
  from Cons.prems(1) have less: "\<forall>x \<in> set hs. fst h < fst x" and srt: "sorted_wrt (<) (map fst hs)"
    by auto
  show ?case
  proof (cases "(S, l, t) = h")
    case True
    with Cons.prems(3) show ?thesis by auto
  next
    case False
    with Cons.prems(2) have in_tl: "(S, l, t) \<in> set hs" by simp
    with less have "fst h < S" by fastforce
    with Cons.prems(4) have "\<not> Q h" by simp
    moreover from Cons.prems(4) have "\<forall>x \<in> set hs. fst x < S \<longrightarrow> \<not> Q x" by simp
    ultimately show ?thesis using Cons.IH[OF srt in_tl Cons.prems(3)] by simp
  qed
qed

lemma parse_headings_mem:
  "(p, l, t) \<in> set (parse_headings lines) \<longleftrightarrow> p < length lines \<and> heading_of (lines ! p) = Some (l, t)"
  by (auto simp: parse_headings_def parse_from_set)

lemma parse_headings_sorted: "sorted_wrt (<) (map fst (parse_headings lines))"
  by (simp add: parse_headings_def parse_from_sorted)

lemma first_heading_satisfying:
  assumes "heading_satisfies nrm pr lines S" and "\<forall>j<S. \<not> heading_satisfies nrm pr lines j"
  shows "map_option fst (find (\<lambda>(i, l, t). pr l (nrm t)) (parse_headings lines)) = Some S"
proof -
  from assms(1) obtain l t where h: "S < length lines" "heading_of (lines ! S) = Some (l, t)" "pr l (nrm t)"
    by (auto simp: heading_satisfies_def split: option.splits)
  have "\<forall>x \<in> set (parse_headings lines). fst x < S \<longrightarrow> \<not> (\<lambda>(i, l, t). pr l (nrm t)) x"
  proof (intro ballI impI)
    fix x assume x: "x \<in> set (parse_headings lines)" "fst x < S"
    obtain p l' t' where x': "x = (p, l', t')" by (cases x)
    with x have "p < length lines" "heading_of (lines ! p) = Some (l', t')" "p < S"
      by (simp_all add: parse_headings_mem)
    with assms(2) have "\<not> pr l' (nrm t')" by (auto simp: heading_satisfies_def)
    with x' show "\<not> (\<lambda>(i, l, t). pr l (nrm t)) x" by simp
  qed
  with find_first_sorted[OF parse_headings_sorted, of S l t lines "\<lambda>(i, l, t). pr l (nrm t)"] h
  show ?thesis by (simp add: parse_headings_mem)
qed

lemma find_Some_set: "find Q xs = Some x \<Longrightarrow> x \<in> set xs \<and> Q x"
  by (induction xs) (auto split: if_splits)

lemma found_heading_satisfies:
  assumes "map_option fst (find (\<lambda>(i, l, t). pr l (nrm t)) (parse_headings lines)) = Some e"
  shows "heading_satisfies nrm pr lines e"
proof -
  from assms obtain x where x: "find (\<lambda>(i, l, t). pr l (nrm t)) (parse_headings lines) = Some x" "fst x = e"
    by auto
  obtain p l t where x': "x = (p, l, t)" by (cases x)
  from find_Some_set[OF x(1)] have "x \<in> set (parse_headings lines)" "(\<lambda>(i, l, t). pr l (nrm t)) x"
    by simp_all
  with x' x(2) show ?thesis by (simp add: parse_headings_mem heading_satisfies_def)
qed

lemma heading_satisfies_eval:
  "j < length lines \<Longrightarrow> heading_of (lines ! j) = Some (l, t) \<Longrightarrow>
   heading_satisfies nrm pr lines j = pr l (nrm t)"
  by (simp add: heading_satisfies_def)

lemma heading_satisfies_no_heading:
  "heading_of (lines ! j) = None \<Longrightarrow> \<not> heading_satisfies nrm pr lines j"
  by (simp add: heading_satisfies_def)

lemma parse_from_heading_of:
  "parse_from i (ln # lns) =
     (case heading_of ln of
        Some (l, t) \<Rightarrow> (i, l, t) # parse_from (Suc i) lns
      | None \<Rightarrow> parse_from (Suc i) lns)"
  by (simp add: heading_of_def split: option.splits)

text \<open>
  Claim C4. Let \<open>S\<close> be the first heading that satisfies the start test, and let no
  heading after \<open>S\<close> satisfy the end test. Then branch \<open>a\<close> of \<open>dataset\<close> (the policy
  that fails) gives \<open>end_missing\<close>, and branch \<open>b\<close> (the policy that goes to the end)
  gives on the same document and the same tests the lines from \<open>S\<close> to the length of
  the document.
\<close>

theorem dataset_end_fallbacks:
  assumes "heading_satisfies nrm ps lines S" and "\<forall>j<S. \<not> heading_satisfies nrm ps lines j"
    and "\<forall>j. S < j \<longrightarrow> \<not> heading_satisfies nrm pe lines j"
  shows "dataset_a nrm ps pe lines = Inl end_missing \<and>
         dataset_b nrm ps pe lines = Inr (slice lines S (length lines))"
proof -
  let ?b = "map_option fst (find (\<lambda>(i, l, t). pe l (nrm t)) (parse_headings lines))"
  have scan: "dataset_scan nrm ps pe (parse_headings lines) None None = (Some S, ?b)"
    by (simp add: dataset_scan_find first_heading_satisfying[OF assms(1,2)])
  have le: "e \<le> S" if "?b = Some e" for e
    using found_heading_satisfies[where pr=pe and nrm=nrm, OF that] assms(3) by (meson not_le_imp_less)
  show ?thesis
  proof (cases ?b)
    case None
    with scan show ?thesis by (simp add: dataset_a_def dataset_b_def)
  next
    case (Some e)
    with le have "e \<le> S" by simp
    with scan Some show ?thesis by (simp add: dataset_a_def dataset_b_def)
  qed
qed

text \<open>
  The theorem at a document where the only heading that satisfies the end test stands
  before the start.
\<close>

theorem dataset_end_fallbacks_witness:
  "heading_satisfies norm_latin1 is_tabla_clientes
     [ustr ''## Programa interactivo'', ustr ''### Tabla Clientes'', ustr ''x''] 1 \<and>
   \<not> heading_satisfies norm_latin1 is_tabla_clientes
     [ustr ''## Programa interactivo'', ustr ''### Tabla Clientes'', ustr ''x''] 0 \<and>
   heading_satisfies norm_latin1 is_programa_interactivo
     [ustr ''## Programa interactivo'', ustr ''### Tabla Clientes'', ustr ''x''] 0 \<and>
   \<not> heading_satisfies norm_latin1 is_programa_interactivo
     [ustr ''## Programa interactivo'', ustr ''### Tabla Clientes'', ustr ''x''] 2 \<and>
   dataset_a norm_latin1 is_tabla_clientes is_programa_interactivo
     [ustr ''## Programa interactivo'', ustr ''### Tabla Clientes'', ustr ''x'']
     = Inl end_missing \<and>
   dataset_b norm_latin1 is_tabla_clientes is_programa_interactivo
     [ustr ''## Programa interactivo'', ustr ''### Tabla Clientes'', ustr ''x'']
     = Inr [ustr ''### Tabla Clientes'', ustr ''x'']"
proof -
  let ?D = "[ustr ''## Programa interactivo'', ustr ''### Tabla Clientes'', ustr ''x'']"
  have h0: "heading_of (?D ! 0) = Some (2, ustr ''Programa interactivo'')"
    by (simp add: eval_simps)
  have h1: "heading_of (?D ! 1) = Some (3, ustr ''Tabla Clientes'')"
    by (simp add: eval_simps)
  have h2: "heading_of (?D ! 2) = None"
    by (simp add: eval_simps)
  have n0: "norm_latin1 (ustr ''Programa interactivo'') = ustr ''programa interactivo''"
    by (simp add: eval_simps)
  have n1: "norm_latin1 (ustr ''Tabla Clientes'') = ustr ''tabla clientes''"
    by (simp add: eval_simps)
  have p0: "is_programa_interactivo 2 (ustr ''programa interactivo'')"
    by (simp add: eval_simps)
  have p1: "is_tabla_clientes 3 (ustr ''tabla clientes'')"
    by (simp add: eval_simps)
  have q0: "\<not> is_tabla_clientes 2 (ustr ''programa interactivo'')"
    by (simp add: is_tabla_clientes_def)
  have s: "heading_satisfies norm_latin1 is_tabla_clientes ?D 1"
    using heading_satisfies_eval[of 1 ?D 3 "ustr ''Tabla Clientes''" norm_latin1 is_tabla_clientes] h1 n1 p1
    by simp
  have s0: "\<not> heading_satisfies norm_latin1 is_tabla_clientes ?D 0"
    using heading_satisfies_eval[of 0 ?D 2 "ustr ''Programa interactivo''" norm_latin1 is_tabla_clientes] h0 n0 q0
    by simp
  have e0: "heading_satisfies norm_latin1 is_programa_interactivo ?D 0"
    using heading_satisfies_eval[of 0 ?D 2 "ustr ''Programa interactivo''" norm_latin1 is_programa_interactivo] h0 n0 p0
    by simp
  have e2: "\<not> heading_satisfies norm_latin1 is_programa_interactivo ?D 2"
    by (rule heading_satisfies_no_heading[OF h2])
  have first: "\<forall>j<1. \<not> heading_satisfies norm_latin1 is_tabla_clientes ?D j"
    using s0 by simp
  have after: "\<forall>j. 1 < j \<longrightarrow> \<not> heading_satisfies norm_latin1 is_programa_interactivo ?D j"
  proof (intro allI impI)
    fix j :: nat assume "1 < j"
    then have "j = 2 \<or> \<not> j < length ?D" by auto
    with e2 show "\<not> heading_satisfies norm_latin1 is_programa_interactivo ?D j"
      by (auto simp: heading_satisfies_def)
  qed
  have sl: "slice ?D 1 (length ?D) = [ustr ''### Tabla Clientes'', ustr ''x'']"
    by (simp add: slice_def)
  from dataset_end_fallbacks[OF s first after] sl
  have r: "dataset_a norm_latin1 is_tabla_clientes is_programa_interactivo ?D = Inl end_missing"
    "dataset_b norm_latin1 is_tabla_clientes is_programa_interactivo ?D = Inr [ustr ''### Tabla Clientes'', ustr ''x'']"
    by simp_all
  from s s0 e0 e2 r show ?thesis by blast
qed

text \<open>
  Claim C3 at a document where a heading that satisfies the end test stands before the
  start and another one after it. Branch \<open>b\<close> keeps the first of them, finds it not
  after the start and shows the lines to the end of the document, the second heading of
  the end test among them (line 3). Branch \<open>a\<close> reports the subtitle as missing
  although line 3 carries it after the start.
\<close>

theorem dataset_end_before_start:
  "dataset_detalle norm_latin1
     [ustr ''## Programa Interactivo'', ustr ''### Tabla clientes'', ustr ''x'',
      ustr ''## Programa Interactivo'', ustr ''y'']
   = Inr [ustr ''### Tabla clientes'', ustr ''x'', ustr ''## Programa Interactivo'', ustr ''y''] \<and>
   heading_satisfies norm_latin1 is_programa_interactivo
     [ustr ''## Programa Interactivo'', ustr ''### Tabla clientes'', ustr ''x'',
      ustr ''## Programa Interactivo'', ustr ''y''] 3 \<and>
   dataset_resumen norm_latin1
     [ustr ''### Tabla clientes'', ustr ''## Dataset de referencia'', ustr ''x'',
      ustr ''### Tabla clientes'', ustr ''y'']
   = Inl end_missing \<and>
   heading_satisfies norm_latin1 is_tabla_clientes
     [ustr ''### Tabla clientes'', ustr ''## Dataset de referencia'', ustr ''x'',
      ustr ''### Tabla clientes'', ustr ''y''] 3"
proof -
  let ?B = "[ustr ''## Programa Interactivo'', ustr ''### Tabla clientes'', ustr ''x'',
      ustr ''## Programa Interactivo'', ustr ''y'']"
  let ?A = "[ustr ''### Tabla clientes'', ustr ''## Dataset de referencia'', ustr ''x'',
      ustr ''### Tabla clientes'', ustr ''y'']"
  have hp: "heading_of (ustr ''## Programa Interactivo'') = Some (2, ustr ''Programa Interactivo'')"
    by (simp add: eval_simps)
  have ht: "heading_of (ustr ''### Tabla clientes'') = Some (3, ustr ''Tabla clientes'')"
    by (simp add: eval_simps)
  have hd: "heading_of (ustr ''## Dataset de referencia'') = Some (2, ustr ''Dataset de referencia'')"
    by (simp add: eval_simps)
  have hx: "heading_of (ustr ''x'') = None" "heading_of (ustr ''y'') = None"
    by (simp_all add: eval_simps)
  have np: "norm_latin1 (ustr ''Programa Interactivo'') = ustr ''programa interactivo''"
    by (simp add: eval_simps)
  have nt: "norm_latin1 (ustr ''Tabla clientes'') = ustr ''tabla clientes''"
    by (simp add: eval_simps)
  have nd: "norm_latin1 (ustr ''Dataset de referencia'') = ustr ''dataset de referencia''"
    by (simp add: eval_simps)
  have pp: "is_programa_interactivo 2 (ustr ''programa interactivo'')"
    by (simp add: eval_simps)
  have pt: "is_tabla_clientes 3 (ustr ''tabla clientes'')"
    by (simp add: eval_simps)
  have pd: "is_dataset_referencia 2 (ustr ''dataset de referencia'')"
    by (simp add: eval_simps)
  have lv: "\<And>n. \<not> is_tabla_clientes 2 n" "\<And>n. \<not> is_programa_interactivo 3 n"
    "\<And>n. \<not> is_dataset_referencia 3 n"
    by (simp_all add: is_tabla_clientes_def is_programa_interactivo_def is_dataset_referencia_def)
  have phB: "parse_headings ?B =
      [(0, 2, ustr ''Programa Interactivo''), (1, 3, ustr ''Tabla clientes''),
       (3, 2, ustr ''Programa Interactivo'')]"
    by (simp del: parse_from.simps
        add: parse_headings_def parse_from_heading_of parse_from.simps(1) hp ht hx)
  have phA: "parse_headings ?A =
      [(0, 3, ustr ''Tabla clientes''), (1, 2, ustr ''Dataset de referencia''),
       (3, 3, ustr ''Tabla clientes'')]"
    by (simp del: parse_from.simps
        add: parse_headings_def parse_from_heading_of parse_from.simps(1) hd ht hx)
  have b: "dataset_detalle norm_latin1 ?B =
      Inr [ustr ''### Tabla clientes'', ustr ''x'', ustr ''## Programa Interactivo'', ustr ''y'']"
    by (simp add: dataset_detalle_def dataset_b_def phB np nt pp pt lv slice_def)
  have a: "dataset_resumen norm_latin1 ?A = Inl end_missing"
    by (simp add: dataset_resumen_def dataset_a_def phA nd nt pd pt lv)
  have sb: "heading_satisfies norm_latin1 is_programa_interactivo ?B 3"
    using heading_satisfies_eval[of 3 ?B 2 "ustr ''Programa Interactivo''" norm_latin1 is_programa_interactivo]
      hp np pp by simp
  have sa: "heading_satisfies norm_latin1 is_tabla_clientes ?A 3"
    using heading_satisfies_eval[of 3 ?A 3 "ustr ''Tabla clientes''" norm_latin1 is_tabla_clientes]
      ht nt pt by simp
  from b sb a sa show ?thesis by blast
qed

section \<open>Subsections of a section\<close>










text \<open>
  \<open>sugerencias_copilot\<close> shows the ranges of \<open>partition_subsections\<close> for the range
  of its target heading: the subsections joined by an empty line, or the block as it
  is when there is no subsection.
\<close>

lemma sugerencias_copilot_partition:
  assumes "find_target lower (parse_headings lines) = Some (s, L)"
    and "e = section_end (parse_headings lines) s L (length lines)"
  shows "sugerencias_copilot lower lines =
     (let texts = map (\<lambda>(a, b). strip (join [10] (slice lines a b)))
                    (partition_subsections lines s e)
      in if sub_ranges (parse_headings lines) (parse_headings lines) s e = []
         then (if hd texts \<noteq> [] then content (hd texts) else no_content)
         else content (join [10, 10] texts))"
  using assms by (simp add: sugerencias_copilot_def partition_subsections_def Let_def)




section \<open>Paragraphs\<close>

lemma maximal_runs_prefix:
  assumes "\<forall>b \<in> set buf. P b" and "buf \<noteq> []"
  shows "maximal_runs P (buf @ xs) = (buf @ takeWhile P xs) # maximal_runs P (dropWhile P xs)"
proof -
  from assms(2) obtain b bs where buf: "buf = b # bs" by (cases buf) auto
  with assms(1) have b: "P b" and bs: "\<And>x. x \<in> set bs \<Longrightarrow> P x" by auto
  from bs have "takeWhile P (bs @ xs) = bs @ takeWhile P xs" by (rule takeWhile_append2)
  moreover from bs have "dropWhile P (bs @ xs) = dropWhile P xs" by (rule dropWhile_append2)
  ultimately show ?thesis using b buf by simp
qed

lemma maximal_runs_none: "\<forall>x \<in> set xs. \<not> P x \<Longrightarrow> maximal_runs P xs = []"
  by (induction xs) auto

lemma maximal_runs_elems:
  "r \<in> set (maximal_runs P xs) \<Longrightarrow> r \<noteq> [] \<and> (\<forall>x \<in> set r. P x)"
proof (induction P xs rule: maximal_runs.induct)
  case (1 P)
  then show ?case by simp
next
  case (2 P x xs)
  show ?case
  proof (cases "P x")
    case True
    with 2 show ?thesis by (auto dest: set_takeWhileD)
  next
    case False
    with 2 show ?thesis by simp
  qed
qed

lemma paragraphs_loop_runs:
  "\<forall>b \<in> set buf. strip b \<noteq> [] \<Longrightarrow>
   paragraphs_loop paras buf lines =
     paras @ map (\<lambda>r. strip (join [10] r))
       (maximal_runs (\<lambda>ln. strip ln \<noteq> []) (buf @ filter (\<lambda>ln. \<not> heading_prefix ln) lines))"
proof (induction lines arbitrary: paras buf)
  case Nil
  show ?case
  proof (cases "buf = []")
    case True
    then show ?thesis by simp
  next
    case False
    with maximal_runs_prefix[OF Nil False, of "[]"] show ?thesis by simp
  qed
next
  case (Cons ln lns)
  let ?NB = "\<lambda>ln. strip ln \<noteq> []"
  let ?rest = "filter (\<lambda>ln. \<not> heading_prefix ln) lns"
  show ?case
  proof (cases "heading_prefix ln")
    case True
    with Cons.IH[OF Cons.prems] show ?thesis by simp
  next
    case nh: False
    show ?thesis
    proof (cases "strip ln = []")
      case blank: True
      show ?thesis
      proof (cases "buf = []")
        case True
        with nh blank Cons.IH[of "[]" paras] show ?thesis by simp
      next
        case False
        have "maximal_runs ?NB (buf @ ln # ?rest) = buf # maximal_runs ?NB ?rest"
          using maximal_runs_prefix[OF Cons.prems False, of "ln # ?rest"] blank by simp
        with nh blank False Cons.IH[of "[]" "paras @ [strip (join [10] buf)]"]
        show ?thesis by simp
      qed
    next
      case False
      with Cons.prems have "\<forall>b \<in> set (buf @ [ln]). strip b \<noteq> []" by simp
      from Cons.IH[OF this, of paras] nh False show ?thesis by simp
    qed
  qed
qed

lemma strip_keeps_non_space:
  "c \<in> set s \<Longrightarrow> \<not> is_space c \<Longrightarrow> c \<in> set (strip s)"
proof -
  assume c: "c \<in> set s" "\<not> is_space c"
  have keep: "x \<in> set (dropWhile is_space xs)" if "x \<in> set xs" "\<not> is_space x" for x xs
  proof -
    have "set xs = set (takeWhile is_space xs) \<union> set (dropWhile is_space xs)"
      by (metis set_append takeWhile_dropWhile_id)
    with that(1) have "x \<in> set (takeWhile is_space xs) \<or> x \<in> set (dropWhile is_space xs)" by blast
    with that(2) show ?thesis by (auto dest: set_takeWhileD)
  qed
  from keep[OF c] have "c \<in> set (rev (dropWhile is_space s))" by simp
  from keep[OF this c(2)] show ?thesis by (simp add: strip_def)
qed

lemma strip_empty_iff: "strip s = [] \<longleftrightarrow> (\<forall>c \<in> set s. is_space c)"
proof
  assume "strip s = []"
  then show "\<forall>c \<in> set s. is_space c" using strip_keeps_non_space[of _ s] by fastforce
next
  assume "\<forall>c \<in> set s. is_space c"
  then have d: "dropWhile is_space s = []" by simp
  show "strip s = []" unfolding strip_def d by simp
qed

lemma set_join: "x \<in> set xs \<Longrightarrow> set x \<subseteq> set (join sep xs)"
  by (induction sep xs rule: join.induct) auto

lemma heading_prefix_iff: "heading_prefix ln \<longleftrightarrow> ln \<noteq> [] \<and> hd ln = 35"
  by (cases ln) (auto simp: heading_prefix_def)

text \<open>
  Claim C7, as the code has it. \<open>all_paragraphs\<close> skips the lines that start with
  \<open>#\<close> and returns one entry for each maximal run of non-blank lines among the lines
  that are left, the run joined by line feeds and stripped: a heading line does not
  end a run, only a blank line does. No entry is empty and every entry has a character
  that is no white space; a document of heading lines and blank lines gives the empty
  list.
\<close>

theorem all_paragraphs_runs:
  "all_paragraphs lines =
     map (\<lambda>r. strip (join [10] r))
       (maximal_runs (\<lambda>ln. strip ln \<noteq> []) (filter (\<lambda>ln. \<not> heading_prefix ln) lines)) \<and>
   (\<forall>p \<in> set (all_paragraphs lines). p \<noteq> [] \<and> (\<exists>c \<in> set p. \<not> is_space c)) \<and>
   ((\<forall>ln \<in> set lines. heading_prefix ln \<or> strip ln = []) \<longrightarrow> all_paragraphs lines = [])"
proof -
  let ?NB = "\<lambda>ln. strip ln \<noteq> []"
  let ?body = "filter (\<lambda>ln. \<not> heading_prefix ln) lines"
  have eq: "all_paragraphs lines = map (\<lambda>r. strip (join [10] r)) (maximal_runs ?NB ?body)"
    using paragraphs_loop_runs[of "[]" "[]" lines] by (simp add: all_paragraphs_def)
  have ne: "p \<noteq> [] \<and> (\<exists>c \<in> set p. \<not> is_space c)" if "p \<in> set (all_paragraphs lines)" for p
  proof -
    from that eq obtain r where r: "r \<in> set (maximal_runs ?NB ?body)" "p = strip (join [10] r)"
      by auto
    from maximal_runs_elems[OF r(1)] obtain ln where ln: "ln \<in> set r" "strip ln \<noteq> []"
      by (cases r) auto
    from ln(2) obtain c where c: "c \<in> set ln" "\<not> is_space c"
      by (auto simp: strip_empty_iff)
    with set_join[OF ln(1), of "[10]"] have "c \<in> set (join [10] r)" by blast
    with c(2) r(2) have "c \<in> set p" by (simp add: strip_keeps_non_space)
    with c(2) show ?thesis by auto
  qed
  have none: "all_paragraphs lines = []" if "\<forall>ln \<in> set lines. heading_prefix ln \<or> strip ln = []"
  proof -
    from that have "\<forall>x \<in> set ?body. \<not> ?NB x" by auto
    then have "maximal_runs ?NB ?body = []" by (rule maximal_runs_none)
    with eq show ?thesis by simp
  qed
  from eq ne none show ?thesis by blast
qed

text \<open>
  The theorem at a document with a heading, two paragraphs and blank lines, and at a
  document of headings and an empty line.
\<close>

theorem all_paragraphs_runs_witness:
  "all_paragraphs [ustr ''# T'', [], ustr ''a'', ustr ''b'', ustr '' '', ustr ''c'']
     = [ustr ''a'' @ [10] @ ustr ''b'', ustr ''c''] \<and>
   maximal_runs (\<lambda>ln. strip ln \<noteq> [])
     (filter (\<lambda>ln. \<not> heading_prefix ln) [ustr ''# T'', [], ustr ''a'', ustr ''b'', ustr '' '', ustr ''c''])
     = [[ustr ''a'', ustr ''b''], [ustr ''c'']] \<and>
   heading_prefix (ustr ''# T'') \<and> strip [] = [] \<and> heading_prefix (ustr ''## U'') \<and>
   all_paragraphs [ustr ''# T'', [], ustr ''## U''] = []"
proof -
  have r: "maximal_runs (\<lambda>ln. strip ln \<noteq> [])
     (filter (\<lambda>ln. \<not> heading_prefix ln) [ustr ''# T'', [], ustr ''a'', ustr ''b'', ustr '' '', ustr ''c''])
     = [[ustr ''a'', ustr ''b''], [ustr ''c'']]"
    by (simp add: heading_prefix_def ustr_def strip_def is_space_def)
  from all_paragraphs_runs[of "[ustr ''# T'', [], ustr ''a'', ustr ''b'', ustr '' '', ustr ''c'']"]
  have a: "all_paragraphs [ustr ''# T'', [], ustr ''a'', ustr ''b'', ustr '' '', ustr ''c'']
     = [ustr ''a'' @ [10] @ ustr ''b'', ustr ''c'']"
    unfolding r by (simp add: ustr_def strip_def is_space_def)
  have h: "heading_prefix (ustr ''# T'')" "strip [] = []" "heading_prefix (ustr ''## U'')"
    by (simp_all add: heading_prefix_def ustr_def strip_def)
  then have "\<forall>ln \<in> set [ustr ''# T'', [], ustr ''## U'']. heading_prefix ln \<or> strip ln = []"
    by simp
  with all_paragraphs_runs[of "[ustr ''# T'', [], ustr ''## U'']"]
  have e: "all_paragraphs [ustr ''# T'', [], ustr ''## U''] = []" by blast
  from a r h e show ?thesis by blast
qed

text \<open>
  Claim C7 as it is stated fails: the document \<open>a\<close>, \<open># H\<close>, \<open>b\<close> has two maximal
  runs of non-blank, non-heading lines, and \<open>all_paragraphs\<close> returns the one entry
  \<open>a\<close>, line feed, \<open>b\<close>.
\<close>

theorem all_paragraphs_heading_counterexample:
  "all_paragraphs [ustr ''a'', ustr ''# H'', ustr ''b''] = [ustr ''a'' @ [10] @ ustr ''b''] \<and>
   map (\<lambda>r. strip (join [10] r))
     (maximal_runs (\<lambda>ln. strip ln \<noteq> [] \<and> \<not> heading_prefix ln) [ustr ''a'', ustr ''# H'', ustr ''b''])
     = [ustr ''a'', ustr ''b'']"
  by (simp add: all_paragraphs_def heading_prefix_def ustr_def strip_def is_space_def)

section \<open>Fenced code\<close>

lemma code_loop_fence:
  "code_loop b acc (ln # lns) =
     (if is_fence ln then code_loop (\<not> b) acc lns
      else if b then code_loop b (acc @ [ln]) lns
      else code_loop b acc lns)"
  by (simp add: is_fence_def)

lemma inside_code_Suc:
  "(b \<noteq> inside_code (ln # lns) (Suc i)) \<longleftrightarrow> ((b \<noteq> is_fence ln) \<noteq> inside_code lns i)"
  by (auto simp: inside_code_def)

lemma inside_code_0: "inside_code lines 0 \<longleftrightarrow> False"
  by (simp add: inside_code_def)

lemma upt_0_Suc: "[0..<Suc n] = 0 # map Suc [0..<n]"
  by (simp only: upt_conv_Cons zero_less_Suc map_Suc_upt)

lemma code_loop_index:
  "code_loop b acc lines =
     acc @ map (\<lambda>i. lines ! i)
       (filter (\<lambda>i. \<not> is_fence (lines ! i) \<and> (b \<noteq> inside_code lines i)) [0..<length lines])"
proof (induction lines arbitrary: b acc)
  case Nil
  then show ?case by simp
next
  case (Cons ln lns)
  let ?Q = "\<lambda>b lines i. \<not> is_fence (lines ! i) \<and> (b \<noteq> inside_code lines i)"
  have Qeq: "\<And>i. (\<not> is_fence (lns ! i) \<and> (b \<noteq> inside_code (ln # lns) (Suc i))) =
      ?Q (b \<noteq> is_fence ln) lns i"
    by (auto simp: inside_code_def)
  have tl: "map (\<lambda>i. (ln # lns) ! i) (filter (?Q b (ln # lns)) (map Suc [0..<length lns])) =
        map (\<lambda>i. lns ! i) (filter (?Q (b \<noteq> is_fence ln) lns) [0..<length lns])"
    by (simp only: filter_map comp_def map_map Qeq nth_Cons_Suc)
  have split: "map (\<lambda>i. (ln # lns) ! i) (filter (?Q b (ln # lns)) [0..<length (ln # lns)]) =
        (if \<not> is_fence ln \<and> b then [ln] else []) @
        map (\<lambda>i. lns ! i) (filter (?Q (b \<noteq> is_fence ln) lns) [0..<length lns])"
  proof (cases "\<not> is_fence ln \<and> b")
    case True
    then have q: "(\<not> is_fence ln \<and> (b \<noteq> inside_code (ln # lns) 0)) = True"
      by (simp add: inside_code_0)
    have "map (\<lambda>i. (ln # lns) ! i) (filter (?Q b (ln # lns)) [0..<length (ln # lns)]) =
          ln # map (\<lambda>i. (ln # lns) ! i) (filter (?Q b (ln # lns)) (map Suc [0..<length lns]))"
      by (simp only: length_Cons upt_0_Suc filter.simps q if_True list.map nth_Cons_0)
    then have e: "map (\<lambda>i. (ln # lns) ! i) (filter (?Q b (ln # lns)) [0..<length (ln # lns)]) =
          ln # map (\<lambda>i. lns ! i) (filter (?Q (b \<noteq> is_fence ln) lns) [0..<length lns])"
      unfolding tl .
    show ?thesis unfolding e using True by simp
  next
    case False
    then have q: "(\<not> is_fence ln \<and> (b \<noteq> inside_code (ln # lns) 0)) = False"
      by (auto simp: inside_code_0)
    have "map (\<lambda>i. (ln # lns) ! i) (filter (?Q b (ln # lns)) [0..<length (ln # lns)]) =
          map (\<lambda>i. (ln # lns) ! i) (filter (?Q b (ln # lns)) (map Suc [0..<length lns]))"
      by (simp only: length_Cons upt_0_Suc filter.simps nth_Cons_0 q if_False)
    then have e: "map (\<lambda>i. (ln # lns) ! i) (filter (?Q b (ln # lns)) [0..<length (ln # lns)]) =
          map (\<lambda>i. lns ! i) (filter (?Q (b \<noteq> is_fence ln) lns) [0..<length lns])"
      unfolding tl .
    show ?thesis unfolding e using False by simp
  qed
  show ?case
    unfolding split code_loop_fence
    by (simp add: Cons.IH)
qed

text \<open>
  Claim C8. \<open>extract_code_block\<close> returns, joined by line feeds and stripped, the
  lines that are no fence lines and stand inside code, that is after an odd number of
  fence lines: each fence line toggles the flag and is left out itself. The function
  is total and has no error value: a fence that is never closed gives the lines
  collected up to the end, as in the document of a fence and the lines \<open>x\<close> and \<open>y\<close>.
\<close>

theorem extract_code_block_lines:
  "extract_code_block lines =
     strip (join [10] (map (\<lambda>i. lines ! i)
       (filter (\<lambda>i. \<not> is_fence (lines ! i) \<and> inside_code lines i) [0..<length lines]))) \<and>
   extract_code_block [ustr [CHR 0x60, CHR 0x60, CHR 0x60], ustr ''x'', ustr ''y'']
     = ustr ''x'' @ [10] @ ustr ''y'' \<and>
   extract_code_block [ustr ''text'', ustr [CHR 0x60, CHR 0x60, CHR 0x60], ustr ''a'', ustr ''b'',
       ustr [CHR 0x60, CHR 0x60, CHR 0x60], ustr ''text2'']
     = ustr ''a'' @ [10] @ ustr ''b''"
proof -
  have "extract_code_block lines =
     strip (join [10] (map (\<lambda>i. lines ! i)
       (filter (\<lambda>i. \<not> is_fence (lines ! i) \<and> inside_code lines i) [0..<length lines])))"
    unfolding extract_code_block_def code_loop_index[of False "[]" lines] by simp
  moreover have "extract_code_block [ustr [CHR 0x60, CHR 0x60, CHR 0x60], ustr ''x'', ustr ''y'']
     = ustr ''x'' @ [10] @ ustr ''y''"
    by (simp add: extract_code_block_def ustr_def strip_def is_space_def)
  moreover have "extract_code_block [ustr ''text'', ustr [CHR 0x60, CHR 0x60, CHR 0x60], ustr ''a'',
       ustr ''b'', ustr [CHR 0x60, CHR 0x60, CHR 0x60], ustr ''text2'']
     = ustr ''a'' @ [10] @ ustr ''b''"
    by (simp add: extract_code_block_def ustr_def strip_def is_space_def)
  ultimately show ?thesis by blast
qed

section \<open>Normalisation\<close>

text \<open>
  On a string of Latin-1 no capital sigma stands, so lower-casing works character by
  character, and the normal form of the string is the concatenation of the normal
  forms of its characters.
\<close>

lemma lower_from_plain: "931 \<notin> set s \<Longrightarrow> lower_from prev s = map lower_char s"
  by (induction s arbitrary: prev) auto

lemma lower_str_latin1: "\<forall>c \<in> set s. c < 256 \<Longrightarrow> lower_str s = lower_latin1 s"
proof -
  assume a: "\<forall>c \<in> set s. c < 256"
  then have "931 \<notin> set s" by auto
  then have "lower_str s = map lower_char s" by (simp add: lower_str_def lower_from_plain)
  also from a have "\<dots> = lower_latin1 s"
    unfolding lower_latin1_def by (intro map_cong) (auto simp: lower_char_def)
  finally show ?thesis .
qed
















end
